theory Spec2Isabelle
  imports Complex_Main "HOL-Library.Sublist"
begin

section \<open>Strings and numbers of the host language\<close>

text \<open>
  A JavaScript string is a sequence of UTF-16 code units; \<open>charCodeAt\<close> reads one of
  them as a number. A string is modelled as the list of its code units, and \<open>str\<close>
  writes an ASCII literal as such a list.
\<close>

type_synonym jsstring = "nat list"

definition str :: "string \<Rightarrow> jsstring" where
  "str s = map of_char s"

text \<open>
  The class \<open>\s\<close> of a regular expression, which is also the set of characters that
  \<open>String.prototype.trim\<close> strips (WhiteSpace and LineTerminator): TAB, LF, VT, FF, CR,
  SPACE, U+00A0, U+1680, U+2000 to U+200A, U+2028, U+2029, U+202F, U+205F, U+3000, U+FEFF.
\<close>

definition is_space :: "nat \<Rightarrow> bool" where
  "is_space c \<longleftrightarrow>
     (9 \<le> c \<and> c \<le> 13) \<or> c = 32 \<or> c = 160 \<or> c = 5760 \<or> (8192 \<le> c \<and> c \<le> 8202) \<or>
     c = 8232 \<or> c = 8233 \<or> c = 8239 \<or> c = 8287 \<or> c = 12288 \<or> c = 65279"

text \<open>The class \<open>\w\<close> is \<open>[A-Za-z0-9_]\<close>; \<open>[\w-]\<close> adds the hyphen.\<close>

definition is_word :: "nat \<Rightarrow> bool" where
  "is_word c \<longleftrightarrow> (48 \<le> c \<and> c \<le> 57) \<or> (65 \<le> c \<and> c \<le> 90) \<or> c = 95 \<or> (97 \<le> c \<and> c \<le> 122)"

definition is_word_or_hyphen :: "nat \<Rightarrow> bool" where
  "is_word_or_hyphen c \<longleftrightarrow> is_word c \<or> c = 45"

text \<open>\<open>s.trim()\<close>: the string without its leading and trailing white space.\<close>

definition trim :: "jsstring \<Rightarrow> jsstring" where
  "trim s = rev (dropWhile is_space (rev (dropWhile is_space s)))"

text \<open>
  \<open>s.split(/\s+/)\<close>: the pieces of \<open>s\<close> between its maximal runs of white space. The
  piece before a leading run and the piece after a trailing run are empty strings, and
  the empty string splits into one empty piece. \<open>cur\<close> is the piece being read.
\<close>

function split_from :: "jsstring \<Rightarrow> jsstring \<Rightarrow> jsstring list" where
  "split_from cur [] = [cur]"
| "split_from cur (c # cs) =
     (if is_space c then cur # split_from [] (dropWhile is_space cs)
      else split_from (cur @ [c]) cs)"
  by pat_completeness auto
termination
  by (relation "measure (\<lambda>(cur, s). length s)")
    (auto simp: less_Suc_eq_le length_dropWhile_le)

definition split_spaces :: "jsstring \<Rightarrow> jsstring list" where
  "split_spaces s = split_from [] s"

text \<open>
  \<open>x | 0\<close> is ToInt32: the number modulo \<open>2 ^ 32\<close>, read as a signed 32-bit value.
\<close>

definition to_int32 :: "int \<Rightarrow> int" where
  "to_int32 x = (x + 2 ^ 31) mod 2 ^ 32 - 2 ^ 31"

section \<open>The document tree\<close>

text \<open>
  Modelled from the spec: the node classes \<open>AnyNode\<close> and \<open>Element\<close> and the predicate
  \<open>isTag\<close> are imported from the tree library and are not part of the sources. The
  spec lists what the caching layer reads of a node: its identity, its tag name, its
  attribute map, its ordered child sequence, and a predicate distinguishing tag-type
  nodes from other node kinds. A node is modelled as a snapshot of exactly these:
  \<open>nid\<close> is the identity of the object (two snapshots with the same \<open>nid\<close> are the
  same object, maybe at different times), \<open>isTag\<close> the value of the predicate, and
  \<open>name\<close>, \<open>attribs\<close> and \<open>children\<close> the properties of these names, \<open>None\<close>
  where the object has no such property (the sources read all three behind \<open>?.\<close> or
  a truthiness test).
\<close>

datatype node =
  Node (nid: nat) (isTag: bool) (name: "jsstring option")
    (attribs: "(jsstring \<times> jsstring) list option") (children: "node list option")

text \<open>\<open>node.attribs?.[key]\<close>: \<open>None\<close> is \<open>undefined\<close>.\<close>

definition attr :: "node \<Rightarrow> jsstring \<Rightarrow> jsstring option" where
  "attr n k = (case attribs n of None \<Rightarrow> None | Some kvs \<Rightarrow> map_of kvs k)"

section \<open>Text cache\<close>

record TextCacheEntry =
  entry_text :: jsstring
  childrenHash :: int

text \<open>The store \<open>textCache\<close> is keyed by the identity of the node.\<close>

type_synonym text_cache = "nat \<rightharpoonup> TextCacheEntry"

text \<open>
  \<open>child.name?.charCodeAt(0)\<close>: \<open>None\<close> stands for the two results that are not a
  code unit, \<open>undefined\<close> (no name) and \<open>NaN\<close> (the empty name); added to a number,
  both give \<open>NaN\<close>.
\<close>

definition name_code :: "node \<Rightarrow> nat option" where
  "name_code c = (case name c of None \<Rightarrow> None | Some [] \<Rightarrow> None | Some (u # us) \<Rightarrow> Some u)"

text \<open>
  One round of the loop of \<open>hashChildren\<close>:
  \<^verbatim>\<open>hash = (hash * 31 + (children[i] as any).name?.charCodeAt(0) || 0) | 0\<close>.
  Both \<open>*\<close> and \<open>+\<close> bind tighter than \<open>||\<close>, so the operand of \<open>||\<close> is the whole
  sum: when the sum is \<open>NaN\<close> or \<open>0\<close> the result is \<open>0\<close>, otherwise it is the sum
  under ToInt32. The sum is below \<open>2 ^ 53\<close>, hence exact, since \<open>hash\<close> is a length
  or a 32-bit value and a code unit is below \<open>2 ^ 16\<close>.
\<close>

definition hash_step :: "int \<Rightarrow> node \<Rightarrow> int" where
  "hash_step hash c =
     (case name_code c of
        None \<Rightarrow> 0
      | Some d \<Rightarrow> (let s = hash * 31 + int d in if s = 0 then 0 else to_int32 s))"

fun hash_loop :: "int \<Rightarrow> node list \<Rightarrow> int" where
  "hash_loop hash [] = hash"
| "hash_loop hash (c # cs) = hash_loop (hash_step hash c) cs"

definition hashChildren :: "node list option \<Rightarrow> int" where
  "hashChildren chs =
     (case chs of
        None \<Rightarrow> 0
      | Some cs \<Rightarrow>
          if length cs = 0 then 0
          else hash_loop (int (length cs)) (take (min (length cs) 10) cs))"

text \<open>
  The fingerprint in the words of the specification: 0 without children; otherwise the
  child count, into which the discriminator of each of the first 10 children is folded
  as \<open>hash * 31 + d\<close> truncated to 32 bits, where \<open>d\<close> is the first code unit of the
  tag name for a tag-type child and 0 for any other child.
\<close>

definition discriminator_spec :: "node \<Rightarrow> int" where
  "discriminator_spec c =
     (if isTag c then (case name c of Some (u # us) \<Rightarrow> int u | _ \<Rightarrow> 0) else 0)"

definition fingerprint_spec :: "node list option \<Rightarrow> int" where
  "fingerprint_spec chs =
     (case chs of
        None \<Rightarrow> 0
      | Some [] \<Rightarrow> 0
      | Some cs \<Rightarrow>
          foldl (\<lambda>hash c. to_int32 (hash * 31 + discriminator_spec c)) (int (length cs))
            (take 10 cs))"

text \<open>
  \<open>getCachedText\<close> returns the text (\<open>None\<close> is \<open>undefined\<close>) and the store it leaves;
  the node is the snapshot at the time of the call.
\<close>

definition getCachedText :: "text_cache \<Rightarrow> node \<Rightarrow> jsstring option \<times> text_cache" where
  "getCachedText textCache node =
     (case textCache (nid node) of
        None \<Rightarrow> (None, textCache)
      | Some entry \<Rightarrow>
          (let currentHash = hashChildren (children node) in
           if childrenHash entry \<noteq> currentHash then (None, textCache(nid node := None))
           else (Some (entry_text entry), textCache)))"

definition setCachedText :: "text_cache \<Rightarrow> node \<Rightarrow> jsstring \<Rightarrow> text_cache" where
  "setCachedText textCache node t =
     textCache(nid node \<mapsto> \<lparr>entry_text = t, childrenHash = hashChildren (children node)\<rparr>)"

section \<open>Selector cache\<close>

text \<open>
  The stores are weak maps keyed by the identity of an object; a cached element is a
  reference, so it is the identity of that element. The inner map of a context is
  keyed by the selector string.
\<close>

type_synonym selector_cache = "nat \<rightharpoonup> (jsstring \<rightharpoonup> nat list)"

definition getCachedSelector :: "selector_cache \<Rightarrow> nat \<Rightarrow> jsstring \<Rightarrow> nat list option" where
  "getCachedSelector selectorCache ctxt selector =
     (case selectorCache ctxt of None \<Rightarrow> None | Some contextCache \<Rightarrow> contextCache selector)"

definition setCachedSelector ::
  "selector_cache \<Rightarrow> nat \<Rightarrow> jsstring \<Rightarrow> nat list \<Rightarrow> selector_cache" where
  "setCachedSelector selectorCache ctxt selector res =
     (let contextCache = (case selectorCache ctxt of None \<Rightarrow> Map.empty | Some m \<Rightarrow> m)
      in selectorCache(ctxt \<mapsto> contextCache(selector \<mapsto> res)))"

text \<open>The body of \<open>clearSelectorCache\<close> is empty: the store is left as it is.\<close>

definition clearSelectorCache :: "selector_cache \<Rightarrow> selector_cache" where
  "clearSelectorCache selectorCache = selectorCache"

section \<open>Traversal cache\<close>

text \<open>
  One record per node with four optional slots. A slot is \<open>None\<close> when the property is
  absent, \<open>Some None\<close> when it holds \<open>null\<close> and \<open>Some (Some e)\<close> when it holds the
  element \<open>e\<close>.
\<close>

record traversal_entry =
  parent_slot :: "nat option option"
  nextSibling_slot :: "nat option option"
  prevSibling_slot :: "nat option option"
  children_slot :: "nat list option"

type_synonym traversal_cache = "nat \<rightharpoonup> traversal_entry"

definition empty_entry :: traversal_entry where
  "empty_entry =
     \<lparr>parent_slot = None, nextSibling_slot = None, prevSibling_slot = None, children_slot = None\<rparr>"

text \<open>\<open>traversalCache.get(node)\<close>, or the fresh record \<open>{}\<close> that a setter stores first.\<close>

definition entry_of :: "traversal_cache \<Rightarrow> nat \<Rightarrow> traversal_entry" where
  "entry_of traversalCache node =
     (case traversalCache node of None \<Rightarrow> empty_entry | Some cache \<Rightarrow> cache)"

definition getCachedParent :: "traversal_cache \<Rightarrow> nat \<Rightarrow> nat option option" where
  "getCachedParent traversalCache node =
     (case traversalCache node of None \<Rightarrow> None | Some cache \<Rightarrow> parent_slot cache)"

definition setCachedParent :: "traversal_cache \<Rightarrow> nat \<Rightarrow> nat option \<Rightarrow> traversal_cache" where
  "setCachedParent traversalCache node p =
     (let cache = entry_of traversalCache node
      in traversalCache(node \<mapsto> cache\<lparr>parent_slot := Some p\<rparr>))"

definition getCachedNextSibling :: "traversal_cache \<Rightarrow> nat \<Rightarrow> nat option option" where
  "getCachedNextSibling traversalCache node =
     (case traversalCache node of None \<Rightarrow> None | Some cache \<Rightarrow> nextSibling_slot cache)"

definition setCachedNextSibling ::
  "traversal_cache \<Rightarrow> nat \<Rightarrow> nat option \<Rightarrow> traversal_cache" where
  "setCachedNextSibling traversalCache node sibling =
     (let cache = entry_of traversalCache node
      in traversalCache(node \<mapsto> cache\<lparr>nextSibling_slot := Some sibling\<rparr>))"

definition getCachedPrevSibling :: "traversal_cache \<Rightarrow> nat \<Rightarrow> nat option option" where
  "getCachedPrevSibling traversalCache node =
     (case traversalCache node of None \<Rightarrow> None | Some cache \<Rightarrow> prevSibling_slot cache)"

definition setCachedPrevSibling ::
  "traversal_cache \<Rightarrow> nat \<Rightarrow> nat option \<Rightarrow> traversal_cache" where
  "setCachedPrevSibling traversalCache node sibling =
     (let cache = entry_of traversalCache node
      in traversalCache(node \<mapsto> cache\<lparr>prevSibling_slot := Some sibling\<rparr>))"

definition getCachedChildren :: "traversal_cache \<Rightarrow> nat \<Rightarrow> nat list option" where
  "getCachedChildren traversalCache node =
     (case traversalCache node of None \<Rightarrow> None | Some cache \<Rightarrow> children_slot cache)"

definition setCachedChildren :: "traversal_cache \<Rightarrow> nat \<Rightarrow> nat list \<Rightarrow> traversal_cache" where
  "setCachedChildren traversalCache node chs =
     (let cache = entry_of traversalCache node
      in traversalCache(node \<mapsto> cache\<lparr>children_slot := Some chs\<rparr>))"

section \<open>Attribute cache\<close>

text \<open>
  Per element, a map from the attribute name to \<open>string | undefined\<close>: the key is
  mapped to \<open>None\<close> when \<open>undefined\<close> is the cached value.
\<close>

type_synonym attribute_cache = "nat \<rightharpoonup> (jsstring \<rightharpoonup> jsstring option)"

definition getCachedAttribute :: "attribute_cache \<Rightarrow> nat \<Rightarrow> jsstring \<Rightarrow> jsstring option" where
  "getCachedAttribute attributeCache elem a =
     (case attributeCache elem of
        None \<Rightarrow> None
      | Some cache \<Rightarrow> (case cache a of None \<Rightarrow> None | Some v \<Rightarrow> v))"

definition hasAttributeCache :: "attribute_cache \<Rightarrow> nat \<Rightarrow> jsstring \<Rightarrow> bool" where
  "hasAttributeCache attributeCache elem a =
     (case attributeCache elem of None \<Rightarrow> False | Some cache \<Rightarrow> cache a \<noteq> None)"

definition setCachedAttribute ::
  "attribute_cache \<Rightarrow> nat \<Rightarrow> jsstring \<Rightarrow> jsstring option \<Rightarrow> attribute_cache" where
  "setCachedAttribute attributeCache elem a v =
     (let cache = (case attributeCache elem of None \<Rightarrow> Map.empty | Some m \<Rightarrow> m)
      in attributeCache(elem \<mapsto> cache(a \<mapsto> v)))"

definition invalidateAttributeCache :: "attribute_cache \<Rightarrow> nat \<Rightarrow> attribute_cache" where
  "invalidateAttributeCache attributeCache elem = attributeCache(elem := None)"

section \<open>Fast-path selector detection\<close>

datatype selector_type = TypeId | TypeClass | TypeTag | TypeComplex

record SimpleSelectorInfo =
  sel_type :: selector_type
  sel_value :: "jsstring option"

text \<open>\<open>[\w-]+\<close> against a whole string.\<close>

definition word_hyphen_plus :: "jsstring \<Rightarrow> bool" where
  "word_hyphen_plus s \<longleftrightarrow> s \<noteq> [] \<and> list_all is_word_or_hyphen s"

text \<open>
  The three tests \<^verbatim>\<open>/^#[\w-]+$/\<close>, \<^verbatim>\<open>/^\.[\w-]+$/\<close> and \<^verbatim>\<open>/^[\w-]+$/\<close>; without the
  \<open>m\<close> flag, \<open>^\<close> and \<open>$\<close> are the two ends of the string. 35 is \<open>#\<close>, 46 is \<open>.\<close>.
\<close>

definition test_id :: "jsstring \<Rightarrow> bool" where
  "test_id s = (case s of [] \<Rightarrow> False | c # r \<Rightarrow> c = 35 \<and> word_hyphen_plus r)"

definition test_class :: "jsstring \<Rightarrow> bool" where
  "test_class s = (case s of [] \<Rightarrow> False | c # r \<Rightarrow> c = 46 \<and> word_hyphen_plus r)"

definition test_tag :: "jsstring \<Rightarrow> bool" where
  "test_tag s = word_hyphen_plus s"

definition parseSimpleSelector :: "jsstring \<Rightarrow> SimpleSelectorInfo" where
  "parseSimpleSelector selector =
     (let trimmed = trim selector in
      if test_id trimmed then \<lparr>sel_type = TypeId, sel_value = Some (drop 1 trimmed)\<rparr>
      else if test_class trimmed then \<lparr>sel_type = TypeClass, sel_value = Some (drop 1 trimmed)\<rparr>
      else if test_tag trimmed then \<lparr>sel_type = TypeTag, sel_value = Some trimmed\<rparr>
      else \<lparr>sel_type = TypeComplex, sel_value = None\<rparr>)"

section \<open>Fast-path search\<close>

text \<open>
  The tag-type nodes that the walks of the three searches reach, in pre-order: a
  node that is not of tag type is skipped with all below it, and the children of a
  tag-type node follow it.
\<close>

fun walk :: "node list \<Rightarrow> node list" where
  "walk [] = []"
| "walk (Node k False nm atts ch # ns) = walk ns"
| "walk (Node k True nm atts ch # ns) =
     Node k True nm atts ch # (case ch of None \<Rightarrow> [] | Some cs \<Rightarrow> walk cs) @ walk ns"

text \<open>
  The state of a search: the array \<open>results\<close> and the set \<open>seen\<close>, which holds
  elements by identity. \<open>visited\<close> is a history variable that the sources do not have:
  the tag-type nodes that the search by id has tested so far, in this order.
\<close>

record search_state =
  results :: "node list"
  seen :: "nat set"
  visited :: "node list"

definition init_state :: search_state where
  "init_state = \<lparr>results = [], seen = {}, visited = []\<rparr>"

definition visit :: "node \<Rightarrow> search_state \<Rightarrow> search_state" where
  "visit n st = st\<lparr>visited := visited st @ [n]\<rparr>"

text \<open>\<open>results.push(node); seen.add(node)\<close>\<close>

definition push_result :: "node \<Rightarrow> search_state \<Rightarrow> search_state" where
  "push_result n st = st\<lparr>results := results st @ [n], seen := insert (nid n) (seen st)\<rparr>"

text \<open>
  The inner function \<open>search\<close> of \<open>fastFindById\<close>; the boolean is its return value.
  The test \<open>isTag(node)\<close> is the flag of the node: the second equation is the node
  that the loop passes over, the third the body of the \<open>if\<close>.
\<close>

fun id_search :: "jsstring \<Rightarrow> node list \<Rightarrow> search_state \<Rightarrow> bool \<times> search_state" where
  "id_search i [] st = (False, st)"
| "id_search i (Node k False nm atts ch # ns) st = id_search i ns st"
| "id_search i (Node k True nm atts ch # ns) st =
     (let n = Node k True nm atts ch; st1 = visit n st in
      if attr n (str ''id'') = Some i \<and> nid n \<notin> seen st1 then (True, push_result n st1)
      else
        (case ch of
           None \<Rightarrow> id_search i ns st1
         | Some cs \<Rightarrow>
             (case id_search i cs st1 of
                (True, st2) \<Rightarrow> (True, st2)
              | (False, st2) \<Rightarrow> id_search i ns st2)))"

definition fastFindById :: "node list \<Rightarrow> jsstring \<Rightarrow> node list" where
  "fastFindById roots i = results (snd (id_search i roots init_state))"

text \<open>
  \<open>node.attribs?.['class']?.split(/\s+/) || []\<close>: an array is truthy, so \<open>[]\<close> is
  taken only when the attribute is absent.
\<close>

definition classes_of :: "node \<Rightarrow> jsstring list" where
  "classes_of n = (case attr n (str ''class'') of None \<Rightarrow> [] | Some v \<Rightarrow> split_spaces v)"

text \<open>The inner function \<open>search\<close> of \<open>fastFindByClass\<close>.\<close>

fun class_search :: "jsstring \<Rightarrow> node list \<Rightarrow> search_state \<Rightarrow> search_state" where
  "class_search c [] st = st"
| "class_search c (Node k False nm atts ch # ns) st = class_search c ns st"
| "class_search c (Node k True nm atts ch # ns) st =
     (let n = Node k True nm atts ch;
          st1 = (if c \<in> set (classes_of n) \<and> nid n \<notin> seen st then push_result n st else st);
          st2 = (case ch of None \<Rightarrow> st1 | Some cs \<Rightarrow> class_search c cs st1)
      in class_search c ns st2)"

definition fastFindByClass :: "node list \<Rightarrow> jsstring \<Rightarrow> node list" where
  "fastFindByClass roots className = results (class_search className roots init_state)"

section \<open>Wrapper object pool\<close>

text \<open>
  A number of the language is a finite value, one of the two infinities, or \<open>NaN\<close>.
  The finite doubles are real numbers, and their order and the test against zero are
  exact, so a finite value is modelled as a real.
\<close>

datatype jsnumber = Finite real | PosInfinity | NegInfinity | NaN

text \<open>
  \<open>n < m\<close> for the length \<open>n\<close> of an array and a number \<open>m\<close>; a comparison with
  \<open>NaN\<close> is false.
\<close>

fun length_less :: "nat \<Rightarrow> jsnumber \<Rightarrow> bool" where
  "length_less n (Finite x) = (real n < x)"
| "length_less n PosInfinity = True"
| "length_less n NegInfinity = False"
| "length_less n NaN = False"

text \<open>
  The pool is generic in the type \<open>T\<close> of its instances, which may be any value of the
  language. \<open>truthy\<close> is ToBoolean.
\<close>

datatype jsval =
  Undefined | Null | Boolean bool | Number jsnumber | String jsstring | Object nat

fun truthy :: "jsval \<Rightarrow> bool" where
  "truthy Undefined = False"
| "truthy Null = False"
| "truthy (Boolean b) = b"
| "truthy (Number (Finite x)) = (x \<noteq> 0)"
| "truthy (Number PosInfinity) = True"
| "truthy (Number NegInfinity) = True"
| "truthy (Number NaN) = False"
| "truthy (String s) = (s \<noteq> [])"
| "truthy (Object r) = True"

text \<open>
  The fields of the class. The array \<open>pool\<close> is a stack whose top is its last element;
  \<open>maxSize\<close> is any number. The factory is a procedure that may return a new instance
  at each call: \<open>factory j\<close> is what call number \<open>j\<close> returns, and \<open>made\<close>, a history
  variable, counts the calls so far.
\<close>

record WrapperPool =
  pool :: "jsval list"
  maxSize :: jsnumber
  factory :: "nat \<Rightarrow> jsval"
  made :: nat

text \<open>The constructor; the default \<open>maxSize = 50\<close> stands for an argument left out.\<close>

definition new_WrapperPool :: "(nat \<Rightarrow> jsval) \<Rightarrow> jsnumber option \<Rightarrow> WrapperPool" where
  "new_WrapperPool f m =
     \<lparr>pool = [], maxSize = (case m of None \<Rightarrow> Finite 50 | Some k \<Rightarrow> k), factory = f,
      made = 0\<rparr>"

text \<open>\<open>this.pool.pop()\<close>: the last element, or \<open>undefined\<close> for the empty array.\<close>

definition pop :: "jsval list \<Rightarrow> jsval \<times> jsval list" where
  "pop xs = (if xs = [] then (Undefined, []) else (last xs, butlast xs))"

definition call_factory :: "WrapperPool \<Rightarrow> jsval \<times> WrapperPool" where
  "call_factory p = (factory p (made p), p\<lparr>made := Suc (made p)\<rparr>)"

text \<open>\<open>return this.pool.pop() || this.factory()\<close>\<close>

definition acquire :: "WrapperPool \<Rightarrow> jsval \<times> WrapperPool" where
  "acquire p =
     (let (obj, rest) = pop (pool p); p1 = p\<lparr>pool := rest\<rparr>
      in if truthy obj then (obj, p1) else call_factory p1)"

text \<open>\<open>if (this.pool.length < this.maxSize) this.pool.push(obj)\<close>\<close>

definition release :: "WrapperPool \<Rightarrow> jsval \<Rightarrow> WrapperPool" where
  "release p obj =
     (if length_less (length (pool p)) (maxSize p) then p\<lparr>pool := pool p @ [obj]\<rparr> else p)"

definition clear :: "WrapperPool \<Rightarrow> WrapperPool" where
  "clear p = p\<lparr>pool := []\<rparr>"

text \<open>
  \<open>createWrapperPool\<close> builds the pool, with the default capacity 50, and returns the
  three operations on it.
\<close>

definition createWrapperPool :: "(nat \<Rightarrow> jsval) \<Rightarrow> jsnumber option \<Rightarrow> WrapperPool" where
  "createWrapperPool f m = new_WrapperPool f m"

datatype pool_op = Acquire | Release jsval | Clear

fun run_op :: "WrapperPool \<Rightarrow> pool_op \<Rightarrow> WrapperPool" where
  "run_op p Acquire = snd (acquire p)"
| "run_op p (Release obj) = release p obj"
| "run_op p Clear = clear p"

definition run_ops :: "WrapperPool \<Rightarrow> pool_op list \<Rightarrow> WrapperPool" where
  "run_ops p ops = foldl run_op p ops"

section \<open>Notions for stating the properties\<close>

text \<open>The attribute tests of the two searches, in the words of the specification.\<close>

definition has_id :: "jsstring \<Rightarrow> node \<Rightarrow> bool" where
  "has_id i n \<longleftrightarrow> attr n (str ''id'') = Some i"

definition has_class :: "jsstring \<Rightarrow> node \<Rightarrow> bool" where
  "has_class c n \<longleftrightarrow>
     (case attr n (str ''class'') of None \<Rightarrow> False | Some v \<Rightarrow> c \<in> set (split_spaces v))"

text \<open>
  The first occurrence of each object in a list of nodes, without the objects whose
  identity is in \<open>S\<close>.
\<close>

fun first_occurrences :: "nat set \<Rightarrow> node list \<Rightarrow> node list" where
  "first_occurrences S [] = []"
| "first_occurrences S (n # ns) =
     (if nid n \<in> S then first_occurrences S ns
      else n # first_occurrences (insert (nid n) S) ns)"

text \<open>Nodes and factories of the examples: a text node, an element, two factories.\<close>

definition text_node :: "nat \<Rightarrow> node" where
  "text_node k = Node k False None None None"

definition element :: "nat \<Rightarrow> string \<Rightarrow> (string \<times> string) list \<Rightarrow> node list \<Rightarrow> node" where
  "element k nm kvs cs =
     Node k True (Some (str nm)) (Some (map (\<lambda>(a, v). (str a, str v)) kvs)) (Some cs)"

definition one_factory :: "nat \<Rightarrow> jsval" where
  "one_factory j = Number (Finite 1)"

text \<open>
  What a search for the first node that satisfies \<open>P\<close> leaves when it runs over the
  pre-order \<open>w\<close>: without such a node, every node of \<open>w\<close> has been tested and nothing
  is found; with a first such node \<open>m\<close>, the nodes before \<open>m\<close> and \<open>m\<close> have been
  tested, and \<open>m\<close> is the result.
\<close>

definition scan :: "(node \<Rightarrow> bool) \<Rightarrow> node list \<Rightarrow> search_state \<Rightarrow> bool \<times> search_state" where
  "scan P w st =
     (case find P w of
        None \<Rightarrow> (False, st\<lparr>visited := visited st @ w\<rparr>)
      | Some m \<Rightarrow>
          (True, push_result m (st\<lparr>visited := visited st @ takeWhile (\<lambda>n. \<not> P n) w @ [m]\<rparr>)))"

text \<open>
  Trees of the examples: three list items with classes; an element whose class
  attribute begins with a space; two elements with the same id.
\<close>

definition example_items :: "node list" where
  "example_items =
     [element 11 ''ul'' []
        [element 12 ''li'' [(''class'', ''item featured'')] [text_node 15],
         element 13 ''li'' [(''class'', ''item'')] [],
         element 14 ''li'' [(''class'', ''other'')] []]]"

definition example_spaces :: "node list" where
  "example_spaces =
     [element 11 ''div'' [(''class'', '' item'')]
        [element 12 ''p'' [] [], element 13 ''p'' [(''class'', ''item'')] []]]"

definition example_ids :: "node list" where
  "example_ids =
     [text_node 9,
      element 1 ''div'' []
        [element 2 ''p'' [(''id'', ''x'')] [element 3 ''b'' [] []], text_node 8],
      element 4 ''p'' [(''id'', ''x'')] []]"

text \<open>
  A factory of new objects, and the pool of capacity 2 after three releases in a row.
\<close>

definition fresh_object :: "nat \<Rightarrow> jsval" where
  "fresh_object j = Object (100 + j)"

definition example_pool :: WrapperPool where
  "example_pool =
     run_ops (createWrapperPool fresh_object (Some (Finite 2)))
       [Release (Object 7), Release (Object 8), Release (Object 9)]"

section \<open>Properties of the caches\<close>

text \<open>
  Claim C9: \<open>clearSelectorCache\<close> does not change what the selector cache answers: for
  every context and selector, \<open>getCachedSelector\<close> returns after the call what it
  returned before it.
\<close>

theorem clearSelectorCache_noop:
  "getCachedSelector (clearSelectorCache selectorCache) c s = getCachedSelector selectorCache c s"
  by (simp add: clearSelectorCache_def)

text \<open>
  Claim C7: after \<open>setCachedAttribute(n, a, v)\<close>, \<open>getCachedAttribute(n, a)\<close> returns
  \<open>v\<close>, also when \<open>v\<close> is \<open>undefined\<close>, and \<open>hasAttributeCache(n, a)\<close> is true. An
  attribute that is not cached reads as \<open>undefined\<close> too, so only the presence of the
  key tells the two apart.
\<close>

theorem setCachedAttribute_then_get:
  "getCachedAttribute (setCachedAttribute ac n a v) n a = v \<and>
   hasAttributeCache (setCachedAttribute ac n a v) n a \<and>
   (\<not> hasAttributeCache ac n a \<longrightarrow> getCachedAttribute ac n a = None)"
  by (auto simp: getCachedAttribute_def setCachedAttribute_def hasAttributeCache_def Let_def
      split: option.splits)

theorem setCachedAttribute_then_get_witness:
  "getCachedAttribute (setCachedAttribute Map.empty 1 (str ''href'') None) 1 (str ''href'') = None \<and>
   hasAttributeCache (setCachedAttribute Map.empty 1 (str ''href'') None) 1 (str ''href'') \<and>
   \<not> hasAttributeCache Map.empty 1 (str ''href'') \<and>
   getCachedAttribute Map.empty 1 (str ''href'') = None"
  using setCachedAttribute_then_get [of Map.empty 1 "str ''href''" None]
  by (simp add: hasAttributeCache_def)

text \<open>
  Claim C8: a setter of the traversal cache changes one slot of one node. For each of
  the four setters, the three getters of the other slots return for the node \<open>n\<close>
  what they returned before the call, and the entry of any other node \<open>m\<close> is the
  same.
\<close>

theorem traversal_setters_frame:
  "getCachedNextSibling (setCachedParent tc n p) n = getCachedNextSibling tc n \<and>
   getCachedPrevSibling (setCachedParent tc n p) n = getCachedPrevSibling tc n \<and>
   getCachedChildren (setCachedParent tc n p) n = getCachedChildren tc n \<and>
   getCachedParent (setCachedNextSibling tc n s) n = getCachedParent tc n \<and>
   getCachedPrevSibling (setCachedNextSibling tc n s) n = getCachedPrevSibling tc n \<and>
   getCachedChildren (setCachedNextSibling tc n s) n = getCachedChildren tc n \<and>
   getCachedParent (setCachedPrevSibling tc n s) n = getCachedParent tc n \<and>
   getCachedNextSibling (setCachedPrevSibling tc n s) n = getCachedNextSibling tc n \<and>
   getCachedChildren (setCachedPrevSibling tc n s) n = getCachedChildren tc n \<and>
   getCachedParent (setCachedChildren tc n cs) n = getCachedParent tc n \<and>
   getCachedNextSibling (setCachedChildren tc n cs) n = getCachedNextSibling tc n \<and>
   getCachedPrevSibling (setCachedChildren tc n cs) n = getCachedPrevSibling tc n \<and>
   (m \<noteq> n \<longrightarrow>
      setCachedParent tc n p m = tc m \<and> setCachedNextSibling tc n s m = tc m \<and>
      setCachedPrevSibling tc n s m = tc m \<and> setCachedChildren tc n cs m = tc m)"
  by (simp add: getCachedParent_def getCachedNextSibling_def getCachedPrevSibling_def
      getCachedChildren_def setCachedParent_def setCachedNextSibling_def
      setCachedPrevSibling_def setCachedChildren_def entry_of_def empty_entry_def Let_def
      split: option.splits)

text \<open>
  At a node 1 whose next sibling is cached as \<open>null\<close> and whose parent is then set to
  the element 2: the next sibling is still \<open>null\<close>, the children are still absent,
  and the node 3 still has no entry.
\<close>

theorem traversal_setters_frame_witness:
  "getCachedNextSibling (setCachedParent (setCachedNextSibling Map.empty 1 None) 1 (Some 2)) 1
     = Some None \<and>
   getCachedChildren (setCachedParent (setCachedNextSibling Map.empty 1 None) 1 (Some 2)) 1
     = None \<and>
   (3::nat) \<noteq> 1 \<and>
   setCachedParent (setCachedNextSibling Map.empty 1 None) 1 (Some 2) 3 = None"
  using traversal_setters_frame
    [of "setCachedNextSibling Map.empty 1 None" 1 "Some 2" None "[]" 3]
  by (simp add: getCachedNextSibling_def getCachedChildren_def setCachedNextSibling_def
      entry_of_def empty_entry_def)

section \<open>Properties of the text cache\<close>

text \<open>
  Where the code and the words of the specification agree and where they part: over
  children that are tag-type nodes with a non-empty name, one round of the loop is
  the fold of the specification; a child without a name code sets the hash to 0,
  whatever it was.
\<close>

lemma hash_step_named:
  "isTag c \<Longrightarrow> name_code c \<noteq> None \<Longrightarrow>
   hash_step h c = to_int32 (h * 31 + discriminator_spec c)"
  by (auto simp: hash_step_def name_code_def discriminator_spec_def to_int32_def Let_def
      split: option.splits list.splits)

lemma hash_loop_named:
  "\<forall>c\<in>set cs. isTag c \<and> name_code c \<noteq> None \<Longrightarrow>
   hash_loop h cs = foldl (\<lambda>hash c. to_int32 (hash * 31 + discriminator_spec c)) h cs"
  by (induction cs arbitrary: h) (simp_all add: hash_step_named)

lemma hashChildren_named_children:
  assumes "\<forall>c\<in>set (take 10 cs). isTag c \<and> name_code c \<noteq> None"
  shows "hashChildren (Some cs) = fingerprint_spec (Some cs)"
proof (cases cs)
  case Nil
  then show ?thesis by (simp add: hashChildren_def fingerprint_spec_def)
next
  case (Cons c cs')
  have "take (min (length cs) 10) cs = take 10 cs"
    by (simp add: min_def)
  with assms Cons show ?thesis
    by (simp add: hashChildren_def fingerprint_spec_def hash_loop_named
        del: take_Suc_Cons hash_loop.simps foldl_Cons)
qed

lemma hash_loop_nameless_last:
  "name_code c = None \<Longrightarrow> hash_loop h (cs @ [c]) = 0"
  by (induction cs arbitrary: h) (simp_all add: hash_step_def)

text \<open>
  Claim C1: the fingerprint of the children as the specification words it (a child
  without a name contributes the discriminator 0 to \<open>hash * 31 + d\<close>) against
  \<open>hashChildren\<close>. For a single text child the specification gives \<open>1 * 31 + 0 = 31\<close>
  and the code gives 0; for an element \<open>div\<close> followed by a text node the
  specification gives 5022 and the code gives 0. In the code the \<open>|| 0\<close> applies to the
  whole sum, so a child without a name sets the running hash back to 0.
\<close>

theorem hashChildren_nameless_child:
  "hashChildren (Some [text_node 1]) = 0 \<and>
   fingerprint_spec (Some [text_node 1]) = 31 \<and>
   hashChildren (Some [element 2 ''div'' [] [], text_node 1]) = 0 \<and>
   fingerprint_spec (Some [element 2 ''div'' [] [], text_node 1]) = 5022"
  by (simp add: hashChildren_def fingerprint_spec_def hash_step_def name_code_def
      discriminator_spec_def to_int32_def str_def text_node_def element_def)

text \<open>
  Claim C2: right after \<open>setCachedText(n, t)\<close>, a \<open>getCachedText\<close> on the same object
  whose children have the fingerprint stored by that call returns \<open>t\<close>. Whenever
  \<open>getCachedText(n)\<close> finds an entry whose fingerprint differs from the current one, it
  returns \<open>undefined\<close> and deletes the entry (and nothing else), so that the next
  \<open>getCachedText\<close> on this object returns \<open>undefined\<close> too, whatever its children are
  by then.
\<close>

theorem getCachedText_self_healing:
  "(nid n' = nid n \<and> hashChildren (children n') = hashChildren (children n) \<longrightarrow>
      fst (getCachedText (setCachedText tc n t) n') = Some t) \<and>
   (tc (nid n) = Some e \<and> childrenHash e \<noteq> hashChildren (children n) \<longrightarrow>
      fst (getCachedText tc n) = None \<and>
      snd (getCachedText tc n) = tc(nid n := None) \<and>
      (\<forall>n'. nid n' = nid n \<longrightarrow> fst (getCachedText (snd (getCachedText tc n)) n') = None))"
  by (simp add: getCachedText_def setCachedText_def Let_def)

lemma hash_examples:
  "hashChildren (Some [element 2 ''li'' [] [], element 3 ''li'' [] []]) = 5378"
  "hashChildren (Some [element 2 ''li'' [] [], element 3 ''li'' [] [], element 4 ''li'' [] []])
     = 196617"
  by (simp_all add: hashChildren_def hash_step_def name_code_def to_int32_def str_def element_def)

text \<open>
  A list \<open>ul\<close> with two items whose text \<open>X\<close> is cached: the text is returned while the
  children are the same; after a third item is appended the entry is dropped, and it
  stays dropped when the third item is removed again.
\<close>

theorem getCachedText_self_healing_witness:
  "fst (getCachedText
      (setCachedText Map.empty
        (element 10 ''ul'' [] [element 2 ''li'' [] [], element 3 ''li'' [] []]) (str ''X''))
      (element 10 ''ul'' [] [element 2 ''li'' [] [], element 3 ''li'' [] []]))
     = Some (str ''X'') \<and>
   fst (getCachedText
      (setCachedText Map.empty
        (element 10 ''ul'' [] [element 2 ''li'' [] [], element 3 ''li'' [] []]) (str ''X''))
      (element 10 ''ul'' []
        [element 2 ''li'' [] [], element 3 ''li'' [] [], element 4 ''li'' [] []]))
     = None \<and>
   fst (getCachedText
      (snd (getCachedText
        (setCachedText Map.empty
          (element 10 ''ul'' [] [element 2 ''li'' [] [], element 3 ''li'' [] []]) (str ''X''))
        (element 10 ''ul'' []
          [element 2 ''li'' [] [], element 3 ''li'' [] [], element 4 ''li'' [] []])))
      (element 10 ''ul'' [] [element 2 ''li'' [] [], element 3 ''li'' [] []]))
     = None"
proof -
  let ?n = "element 10 ''ul'' [] [element 2 ''li'' [] [], element 3 ''li'' [] []]"
  let ?n' = "element 10 ''ul'' []
    [element 2 ''li'' [] [], element 3 ''li'' [] [], element 4 ''li'' [] []]"
  let ?tc = "setCachedText Map.empty ?n (str ''X'')"
  let ?e = "\<lparr>entry_text = str ''X'', childrenHash = 5378\<rparr>"
  have ids: "nid ?n = 10" "nid ?n' = 10"
    "children ?n = Some [element 2 ''li'' [] [], element 3 ''li'' [] []]"
    "children ?n' = Some [element 2 ''li'' [] [], element 3 ''li'' [] [], element 4 ''li'' [] []]"
    by (simp_all add: element_def)
  have entry: "?tc (nid ?n') = Some ?e"
    by (simp add: setCachedText_def ids hash_examples)
  have differs: "childrenHash ?e \<noteq> hashChildren (children ?n')"
    by (simp add: ids hash_examples)
  from getCachedText_self_healing [of ?n ?n Map.empty "str ''X''"]
  have hit: "fst (getCachedText ?tc ?n) = Some (str ''X'')" by simp
  from getCachedText_self_healing [of _ ?n' ?tc _ ?e] entry differs
  have miss: "fst (getCachedText ?tc ?n') = None"
    and again: "\<forall>m. nid m = nid ?n' \<longrightarrow> fst (getCachedText (snd (getCachedText ?tc ?n')) m) = None"
    by blast+
  from again have "fst (getCachedText (snd (getCachedText ?tc ?n')) ?n) = None"
    by (simp add: ids)
  with hit miss show ?thesis by simp
qed

section \<open>Properties of the selector classification\<close>

text \<open>
  Claim C6: \<open>parseSimpleSelector\<close> classifies the trimmed selector by the first rule
  that applies: \<open>#\<close> and then one or more word or hyphen characters and nothing else
  gives the type id with the part after \<open>#\<close>; \<open>.\<close> and then one or more such
  characters gives the type class with the part after the dot; one or more such
  characters alone give the type tag with the trimmed selector; anything else is
  complex, with no value.
\<close>

theorem parseSimpleSelector_classification:
  "parseSimpleSelector s =
     (let t = trim s in
      if \<exists>v. t = 35 # v \<and> v \<noteq> [] \<and> (\<forall>c\<in>set v. is_word_or_hyphen c)
      then \<lparr>sel_type = TypeId, sel_value = Some (tl t)\<rparr>
      else if \<exists>v. t = 46 # v \<and> v \<noteq> [] \<and> (\<forall>c\<in>set v. is_word_or_hyphen c)
      then \<lparr>sel_type = TypeClass, sel_value = Some (tl t)\<rparr>
      else if t \<noteq> [] \<and> (\<forall>c\<in>set t. is_word_or_hyphen c)
      then \<lparr>sel_type = TypeTag, sel_value = Some t\<rparr>
      else \<lparr>sel_type = TypeComplex, sel_value = None\<rparr>)"
proof -
  have id: "test_id t \<longleftrightarrow> (\<exists>v. t = 35 # v \<and> v \<noteq> [] \<and> (\<forall>c\<in>set v. is_word_or_hyphen c))"
    for t
    by (cases t) (auto simp: test_id_def word_hyphen_plus_def list_all_iff)
  have cl: "test_class t \<longleftrightarrow> (\<exists>v. t = 46 # v \<and> v \<noteq> [] \<and> (\<forall>c\<in>set v. is_word_or_hyphen c))"
    for t
    by (cases t) (auto simp: test_class_def word_hyphen_plus_def list_all_iff)
  have tg: "test_tag t \<longleftrightarrow> t \<noteq> [] \<and> (\<forall>c\<in>set t. is_word_or_hyphen c)" for t
    by (simp add: test_tag_def word_hyphen_plus_def list_all_iff)
  have d: "drop 1 t = tl t" for t :: jsstring
    by (simp add: drop_Suc)
  show ?thesis
    unfolding parseSimpleSelector_def Let_def id cl tg d by (rule refl)
qed

lemma trim_examples:
  "trim (str ''  #nav '') = str ''#nav''" "trim (str ''.item'') = str ''.item''"
  "trim (str ''div'') = str ''div''" "trim (str ''div.item > span'') = str ''div.item > span''"
  by (simp_all add: trim_def str_def is_space_def)

theorem parseSimpleSelector_classification_witness:
  "parseSimpleSelector (str ''  #nav '') = \<lparr>sel_type = TypeId, sel_value = Some (str ''nav'')\<rparr> \<and>
   parseSimpleSelector (str ''.item'') = \<lparr>sel_type = TypeClass, sel_value = Some (str ''item'')\<rparr> \<and>
   parseSimpleSelector (str ''div'') = \<lparr>sel_type = TypeTag, sel_value = Some (str ''div'')\<rparr> \<and>
   parseSimpleSelector (str ''div.item > span'') = \<lparr>sel_type = TypeComplex, sel_value = None\<rparr>"
  using parseSimpleSelector_classification [of "str ''  #nav ''"]
    parseSimpleSelector_classification [of "str ''.item''"]
    parseSimpleSelector_classification [of "str ''div''"]
    parseSimpleSelector_classification [of "str ''div.item > span''"]
  unfolding trim_examples
  by (simp add: str_def is_word_or_hyphen_def is_word_def)

section \<open>Properties of the search by class\<close>

lemma has_class_iff: "has_class c n \<longleftrightarrow> c \<in> set (classes_of n)"
  by (simp add: has_class_def classes_of_def split: option.splits)

lemma first_occurrences_append:
  "first_occurrences S (xs @ ys) =
     first_occurrences S xs @ first_occurrences (S \<union> nid ` set (first_occurrences S xs)) ys"
  by (induction xs arbitrary: S) (auto simp: insert_commute Un_insert_left Un_insert_right)

lemma class_search_results_seen:
  "results (class_search c ns st) =
     results st @ first_occurrences (seen st) (filter (has_class c) (walk ns)) \<and>
   seen (class_search c ns st) =
     seen st \<union> nid ` set (first_occurrences (seen st) (filter (has_class c) (walk ns)))"
proof (induction c ns st rule: class_search.induct)
  case (1 c st)
  show ?case by simp
next
  case (2 c k nm atts ch ns st)
  then show ?case by simp
next
  case (3 c k nm atts ch ns st)
  let ?n = "Node k True nm atts ch"
  let ?F = "\<lambda>S xs. first_occurrences S (filter (has_class c) xs)"
  define st1 where
    "st1 = (if c \<in> set (classes_of ?n) \<and> nid ?n \<notin> seen st then push_result ?n st else st)"
  define st2 where "st2 = (case ch of None \<Rightarrow> st1 | Some cs \<Rightarrow> class_search c cs st1)"
  define sub where "sub = (case ch of None \<Rightarrow> [] | Some cs \<Rightarrow> walk cs)"
  have F_app: "?F S (xs @ ys) = ?F S xs @ ?F (S \<union> nid ` set (?F S xs)) ys" for S xs ys
    by (simp add: first_occurrences_append)
  have step: "class_search c (?n # ns) st = class_search c ns st2"
    unfolding st1_def st2_def by (simp add: Let_def)
  have w: "walk (?n # ns) = [?n] @ sub @ walk ns"
    by (simp add: sub_def)
  have head: "results st1 = results st @ ?F (seen st) [?n]"
    "seen st1 = seen st \<union> nid ` set (?F (seen st) [?n])"
    unfolding st1_def by (auto simp: push_result_def has_class_iff)
  have below: "results st2 = results st1 @ ?F (seen st1) sub \<and>
    seen st2 = seen st1 \<union> nid ` set (?F (seen st1) sub)"
  proof (cases ch)
    case None
    then show ?thesis by (simp add: st2_def sub_def)
  next
    case (Some cs)
    from 3(1) [OF refl refl Some] show ?thesis
      unfolding st2_def sub_def st1_def Some by simp
  qed
  from 3(2) [OF refl refl refl]
  have rest: "results (class_search c ns st2) = results st2 @ ?F (seen st2) (walk ns) \<and>
    seen (class_search c ns st2) = seen st2 \<union> nid ` set (?F (seen st2) (walk ns))"
    unfolding st2_def st1_def by simp
  have "results (class_search c ns st2) = results st @ ?F (seen st) ([?n] @ sub @ walk ns)"
    unfolding F_app using rest below head by simp
  moreover
  have "seen (class_search c ns st2) =
    seen st \<union> nid ` set (?F (seen st) ([?n] @ sub @ walk ns))"
    unfolding F_app using rest below head by (simp add: Un_assoc image_Un)
  ultimately show ?case
    unfolding step w by simp
qed

lemma fastFindByClass_eq:
  "fastFindByClass roots c = first_occurrences {} (filter (has_class c) (walk roots))"
  using class_search_results_seen [of c roots init_state]
  by (simp add: fastFindByClass_def init_state_def)

lemma first_occurrences_fresh: "nid ` set (first_occurrences S xs) \<inter> S = {}"
  by (induction S xs rule: first_occurrences.induct) auto

lemma distinct_first_occurrences: "distinct (map nid (first_occurrences S xs))"
proof (induction S xs rule: first_occurrences.induct)
  case (2 S n ns)
  with first_occurrences_fresh [of "insert (nid n) S" ns] show ?case by auto
qed simp

lemma nid_first_occurrences: "nid ` set (first_occurrences S xs) = nid ` set xs - S"
  by (induction S xs rule: first_occurrences.induct) auto

lemma set_first_occurrences: "set (first_occurrences S xs) \<subseteq> set xs"
  by (induction S xs rule: first_occurrences.induct) auto

lemma subseq_first_occurrences: "subseq (first_occurrences S xs) xs"
  by (induction S xs rule: first_occurrences.induct) auto

lemma first_occurrences_distinct:
  "distinct (map nid xs) \<Longrightarrow> nid ` set xs \<inter> S = {} \<Longrightarrow> first_occurrences S xs = xs"
  by (induction S xs rule: first_occurrences.induct) auto

lemma has_class_absent: "attr n (str ''class'') = None \<Longrightarrow> \<not> has_class c n"
  by (simp add: has_class_def)

text \<open>
  Claim C5: \<open>fastFindByClass\<close> returns the tag-type elements reached by the walk whose
  class attribute, split on runs of white space, has the class name as a member:
  the first occurrence of each such object, in pre-order. No object is returned
  twice, the objects returned are exactly the matching ones, their order is that of
  the pre-order, and where the walk meets no object twice (a tree) the result is the
  list of the matching elements itself. An element without a class attribute has the
  empty class list and is not returned.
\<close>

theorem fastFindByClass_complete:
  "fastFindByClass roots c = first_occurrences {} (filter (has_class c) (walk roots)) \<and>
   distinct (map nid (fastFindByClass roots c)) \<and>
   nid ` set (fastFindByClass roots c) = nid ` {n \<in> set (walk roots). has_class c n} \<and>
   subseq (fastFindByClass roots c) (filter (has_class c) (walk roots)) \<and>
   (distinct (map nid (walk roots)) \<longrightarrow>
      fastFindByClass roots c = filter (has_class c) (walk roots)) \<and>
   (\<forall>n. attr n (str ''class'') = None \<longrightarrow>
      classes_of n = [] \<and> n \<notin> set (fastFindByClass roots c))"
proof -
  let ?m = "filter (has_class c) (walk roots)"
  have eq: "fastFindByClass roots c = first_occurrences {} ?m"
    by (rule fastFindByClass_eq)
  have "distinct (map nid (walk roots)) \<Longrightarrow> first_occurrences {} ?m = ?m"
    by (rule first_occurrences_distinct) (simp_all add: distinct_map_filter)
  moreover have "n \<notin> set (first_occurrences {} ?m)" if "attr n (str ''class'') = None" for n
    using that set_first_occurrences [of "{}" ?m] has_class_absent [of n c]
    by auto
  moreover have "nid ` set ?m = nid ` {n \<in> set (walk roots). has_class c n}"
    by auto
  ultimately show ?thesis
    unfolding eq
    by (simp add: distinct_first_occurrences nid_first_occurrences subseq_first_occurrences
        classes_of_def)
qed

lemma walk_example_items:
  "walk example_items =
     [element 11 ''ul'' []
        [element 12 ''li'' [(''class'', ''item featured'')] [text_node 15],
         element 13 ''li'' [(''class'', ''item'')] [],
         element 14 ''li'' [(''class'', ''other'')] []],
      element 12 ''li'' [(''class'', ''item featured'')] [text_node 15],
      element 13 ''li'' [(''class'', ''item'')] [],
      element 14 ''li'' [(''class'', ''other'')] []]"
  by (simp add: example_items_def element_def text_node_def)

lemma split_examples:
  "split_spaces (str ''item featured'') = [str ''item'', str ''featured'']"
  "split_spaces (str ''item'') = [str ''item'']"
  "split_spaces (str ''other'') = [str ''other'']"
  "split_spaces (str '' item'') = [[], str ''item'']"
  by (simp_all add: split_spaces_def str_def is_space_def)

lemma has_class_examples:
  "has_class (str ''item'') (element 12 ''li'' [(''class'', ''item featured'')] [text_node 15])"
  "has_class (str ''item'') (element 13 ''li'' [(''class'', ''item'')] [])"
  "\<not> has_class (str ''item'') (element 14 ''li'' [(''class'', ''other'')] [])"
  "\<not> has_class (str ''item'') (element 11 ''ul'' []
        [element 12 ''li'' [(''class'', ''item featured'')] [text_node 15],
         element 13 ''li'' [(''class'', ''item'')] [],
         element 14 ''li'' [(''class'', ''other'')] []])"
  by (simp_all add: has_class_def attr_def element_def str_def split_spaces_def is_space_def)

text \<open>
  Three items with the classes \<open>item featured\<close>, \<open>item\<close> and \<open>other\<close>: the search for
  \<open>item\<close> returns the first two, in this order.
\<close>

theorem fastFindByClass_complete_witness:
  "fastFindByClass example_items (str ''item'') =
     [element 12 ''li'' [(''class'', ''item featured'')] [text_node 15],
      element 13 ''li'' [(''class'', ''item'')] []]"
proof -
  have "distinct (map nid (walk example_items))"
    unfolding walk_example_items by (simp add: element_def)
  with fastFindByClass_complete [of example_items "str ''item''"]
  have "fastFindByClass example_items (str ''item'')
    = filter (has_class (str ''item'')) (walk example_items)"
    by blast
  then show ?thesis
    unfolding walk_example_items by (simp add: has_class_examples)
qed

lemma split_from_nonempty: "split_from cur s \<noteq> []"
  by (induction cur s rule: split_from.induct) auto

lemma split_from_trailing:
  "s \<noteq> [] \<Longrightarrow> is_space (last s) \<Longrightarrow> last (split_from cur s) = []"
proof (induction cur s rule: split_from.induct)
  case (1 cur)
  then show ?case by simp
next
  case (2 cur c cs)
  show ?case
  proof (cases "is_space c")
    case space: True
    then have unfold: "split_from cur (c # cs) = cur # split_from [] (dropWhile is_space cs)"
      by simp
    show ?thesis
    proof (cases "dropWhile is_space cs = []")
      case True
      show ?thesis unfolding unfold True by simp
    next
      case False
      then have "cs \<noteq> []" by auto
      have "last (dropWhile is_space cs) = last cs"
        using False by (metis takeWhile_dropWhile_id last_appendR)
      with 2(1) [OF space False] 2(4) \<open>cs \<noteq> []\<close>
      have "last (split_from [] (dropWhile is_space cs)) = []" by simp
      then show ?thesis unfolding unfold by (simp add: split_from_nonempty)
    qed
  next
    case False
    with 2(3,4) have "cs \<noteq> []" by auto
    with 2(2) [OF False] 2(4) False show ?thesis by simp
  qed
qed

lemma split_spaces_empty_piece:
  assumes "v \<noteq> []" and "is_space (hd v) \<or> is_space (last v)"
  shows "[] \<in> set (split_spaces v)"
proof (cases "is_space (hd v)")
  case True
  with assms(1) show ?thesis
    by (cases v) (simp_all add: split_spaces_def)
next
  case False
  with assms have "last (split_from [] v) = []"
    by (simp add: split_from_trailing)
  with split_from_nonempty [of "[]" v] last_in_set [of "split_from [] v"]
  show ?thesis by (simp add: split_spaces_def)
qed

text \<open>
  Claim C10: if a tag-type element reached by the walk has a class attribute whose
  value begins or ends with a white space character, splitting that value yields an
  empty piece, and \<open>fastFindByClass(root, "")\<close> returns a list with that element (the
  object itself is in the list; where the walk meets no object twice, so is this
  node). An element without a class attribute is not in the list.
\<close>

theorem fastFindByClass_empty_name:
  assumes "n \<in> set (walk roots)" and "attr n (str ''class'') = Some v"
    and "v \<noteq> []" and "is_space (hd v) \<or> is_space (last v)"
  shows "[] \<in> set (split_spaces v) \<and>
    nid n \<in> nid ` set (fastFindByClass roots []) \<and>
    (distinct (map nid (walk roots)) \<longrightarrow> n \<in> set (fastFindByClass roots [])) \<and>
    (\<forall>m\<in>set (fastFindByClass roots []). attr m (str ''class'') \<noteq> None)"
proof -
  let ?m = "filter (has_class []) (walk roots)"
  have piece: "[] \<in> set (split_spaces v)"
    using assms(3,4) by (rule split_spaces_empty_piece)
  with assms(2) have "has_class [] n"
    by (simp add: has_class_def)
  with assms(1) have n: "n \<in> set ?m"
    by simp
  then have "nid n \<in> nid ` set ?m - {}"
    by simp
  then have ident: "nid n \<in> nid ` set (fastFindByClass roots [])"
    unfolding fastFindByClass_eq nid_first_occurrences .
  have "distinct (map nid (walk roots)) \<Longrightarrow> first_occurrences {} ?m = ?m"
    by (rule first_occurrences_distinct) (simp_all add: distinct_map_filter)
  with n have tree: "distinct (map nid (walk roots)) \<longrightarrow> n \<in> set (fastFindByClass roots [])"
    unfolding fastFindByClass_eq by simp
  have "attr m (str ''class'') \<noteq> None" if "m \<in> set (fastFindByClass roots [])" for m
    using that set_first_occurrences [of "{}" ?m] has_class_absent [of m "[]"]
    unfolding fastFindByClass_eq by auto
  with piece ident tree show ?thesis
    by blast
qed

lemma walk_example_spaces:
  "walk example_spaces =
     [element 11 ''div'' [(''class'', '' item'')]
        [element 12 ''p'' [] [], element 13 ''p'' [(''class'', ''item'')] []],
      element 12 ''p'' [] [], element 13 ''p'' [(''class'', ''item'')] []]"
  by (simp add: example_spaces_def element_def)

theorem fastFindByClass_empty_name_witness:
  "element 11 ''div'' [(''class'', '' item'')]
     [element 12 ''p'' [] [], element 13 ''p'' [(''class'', ''item'')] []]
     \<in> set (fastFindByClass example_spaces []) \<and>
   [] \<in> set (split_spaces (str '' item''))"
proof -
  let ?n = "element 11 ''div'' [(''class'', '' item'')]
     [element 12 ''p'' [] [], element 13 ''p'' [(''class'', ''item'')] []]"
  have a: "?n \<in> set (walk example_spaces)"
    unfolding walk_example_spaces by simp
  have b: "attr ?n (str ''class'') = Some (str '' item'')"
    by (simp add: attr_def element_def str_def)
  have c: "str '' item'' \<noteq> []"
    by (simp add: str_def)
  have d: "is_space (hd (str '' item'')) \<or> is_space (last (str '' item''))"
    by (simp add: str_def is_space_def)
  have e: "distinct (map nid (walk example_spaces))"
    unfolding walk_example_spaces by (simp add: element_def)
  from fastFindByClass_empty_name [OF a b c d] e show ?thesis
    by blast
qed

section \<open>Properties of the search by id\<close>

lemma find_append_cases:
  "find P (xs @ ys) = (case find P xs of None \<Rightarrow> find P ys | Some x \<Rightarrow> Some x)"
  by (induction xs) auto

lemma find_None_takeWhile:
  "find P xs = None \<Longrightarrow> takeWhile (\<lambda>n. \<not> P n) (xs @ ys) = xs @ takeWhile (\<lambda>n. \<not> P n) ys"
  by (induction xs) (auto split: if_splits)

lemma find_Some_takeWhile:
  "find P xs = Some m \<Longrightarrow> takeWhile (\<lambda>n. \<not> P n) (xs @ ys) = takeWhile (\<lambda>n. \<not> P n) xs"
  by (induction xs) (auto split: if_splits)

lemma scan_Nil: "scan P [] st = (False, st)"
  by (simp add: scan_def)

lemma scan_hit: "P n \<Longrightarrow> scan P (n # w) st = (True, push_result n (visit n st))"
  by (simp add: scan_def visit_def)

lemma scan_miss: "\<not> P n \<Longrightarrow> scan P (n # w) st = scan P w (visit n st)"
  by (simp add: scan_def visit_def split: option.splits)

lemma scan_append:
  "scan P (u @ w) st =
     (case scan P u st of (True, st2) \<Rightarrow> (True, st2) | (False, st2) \<Rightarrow> scan P w st2)"
proof (cases "find P u")
  case None
  then have "scan P u st = (False, st\<lparr>visited := visited st @ u\<rparr>)"
    by (simp add: scan_def)
  moreover from None have "find P (u @ w) = find P w"
    by (simp add: find_append_cases)
  ultimately show ?thesis
    by (simp add: scan_def find_None_takeWhile [OF None] split: option.splits)
next
  case (Some m)
  then have "scan P u st =
    (True, push_result m (st\<lparr>visited := visited st @ takeWhile (\<lambda>n. \<not> P n) u @ [m]\<rparr>))"
    by (simp add: scan_def)
  moreover from Some have "find P (u @ w) = Some m"
    by (simp add: find_append_cases)
  ultimately show ?thesis
    by (simp add: scan_def find_Some_takeWhile [OF Some])
qed

lemma scan_False_seen: "scan P w st = (False, st2) \<Longrightarrow> seen st2 = seen st"
  by (auto simp: scan_def split: option.splits)

lemma seen_visit: "seen (visit n st) = seen st"
  by (simp add: visit_def)

lemma id_search_eq:
  "id_search i ns st = scan (\<lambda>n. has_id i n \<and> nid n \<notin> seen st) (walk ns) st"
proof (induction i ns st rule: id_search.induct)
  case (1 i st)
  show ?case by (simp add: scan_Nil)
next
  case (2 i k nm atts ch ns st)
  then show ?case by simp
next
  case (3 i k nm atts ch ns st)
  let ?n = "Node k True nm atts ch"
  let ?st1 = "visit ?n st"
  let ?P = "\<lambda>n. has_id i n \<and> nid n \<notin> seen st"
  let ?sub = "case ch of None \<Rightarrow> [] | Some cs \<Rightarrow> walk cs"
  have w: "walk (?n # ns) = ?n # ?sub @ walk ns"
    by simp
  show ?case
  proof (cases "attr ?n (str ''id'') = Some i \<and> nid ?n \<notin> seen ?st1")
    case True
    then have "?P ?n"
      by (simp add: has_id_def seen_visit)
    then have "scan ?P (?n # ?sub @ walk ns) st = (True, push_result ?n ?st1)"
      by (rule scan_hit)
    moreover from True have "id_search i (?n # ns) st = (True, push_result ?n ?st1)"
      by (simp add: Let_def)
    ultimately show ?thesis
      unfolding w by simp
  next
    case False
    then have "\<not> ?P ?n"
      by (simp add: has_id_def seen_visit)
    then have miss: "scan ?P (?n # ?sub @ walk ns) st = scan ?P (?sub @ walk ns) ?st1"
      by (rule scan_miss)
    show ?thesis
    proof (cases ch)
      case None
      from 3(1) [OF refl refl False None]
      have "id_search i ns ?st1 = scan ?P (walk ns) ?st1"
        by (simp add: seen_visit)
      moreover from False None have "id_search i (?n # ns) st = id_search i ns ?st1"
        by (auto simp: Let_def)
      ultimately show ?thesis
        unfolding w miss by (simp add: None)
    next
      case (Some cs)
      from 3(2) [OF refl refl False Some]
      have below: "id_search i cs ?st1 = scan ?P (walk cs) ?st1"
        by (simp add: seen_visit)
      obtain b st2 where r: "id_search i cs ?st1 = (b, st2)"
        by (cases "id_search i cs ?st1")
      have split: "scan ?P (?sub @ walk ns) ?st1 = (if b then (True, st2) else scan ?P (walk ns) st2)"
        using below r by (simp add: Some scan_append)
      show ?thesis
      proof (cases b)
        case True
        with False Some r have "id_search i (?n # ns) st = (True, st2)"
          by (auto simp: Let_def)
        with True show ?thesis
          unfolding w miss split by simp
      next
        case b: False
        from r b below have "seen st2 = seen st"
          by (simp add: scan_False_seen [of ?P "walk cs" ?st1 st2] seen_visit)
        with 3(3) [OF refl refl False Some r [symmetric]] b
        have "id_search i ns st2 = scan ?P (walk ns) st2"
          by simp
        moreover from False Some r b have "id_search i (?n # ns) st = id_search i ns st2"
          by (auto simp: Let_def)
        ultimately show ?thesis
          unfolding w miss split using b by simp
      qed
    qed
  qed
qed

lemma find_first: "\<forall>n\<in>set pre. \<not> P n \<Longrightarrow> P m \<Longrightarrow> find P (pre @ m # post) = Some m"
  by (induction pre) auto

lemma takeWhile_first:
  "\<forall>n\<in>set pre. \<not> P n \<Longrightarrow> P m \<Longrightarrow> takeWhile (\<lambda>n. \<not> P n) (pre @ m # post) = pre"
  by (induction pre) auto

lemma find_None_takeWhile_all: "find P xs = None \<Longrightarrow> takeWhile (\<lambda>n. \<not> P n) xs = xs"
  using find_None_takeWhile [of P xs "[]"] by simp

lemma fastFindById_scan:
  "id_search i roots init_state = scan (has_id i) (walk roots) init_state"
  using id_search_eq [of i roots init_state] by (simp add: init_state_def)

text \<open>
  Claim C4: \<open>fastFindById\<close> returns at most one element. The result is the first
  tag-type element of the pre-order walk whose id attribute is the target, if there
  is one, also when later elements have the same id. The search stops there: the
  nodes it has tested are the ones before the first match and the match itself, and
  it returns \<open>true\<close> exactly when it has a result.
\<close>

theorem fastFindById_first_match:
  "length (fastFindById roots i) \<le> 1 \<and>
   fastFindById roots i = (case find (has_id i) (walk roots) of None \<Rightarrow> [] | Some m \<Rightarrow> [m]) \<and>
   fst (id_search i roots init_state) = (fastFindById roots i \<noteq> []) \<and>
   visited (snd (id_search i roots init_state)) =
     takeWhile (\<lambda>n. \<not> has_id i n) (walk roots) @ fastFindById roots i \<and>
   (\<forall>pre m post.
      walk roots = pre @ m # post \<and> has_id i m \<and> (\<forall>n\<in>set pre. \<not> has_id i n) \<longrightarrow>
      fastFindById roots i = [m] \<and> visited (snd (id_search i roots init_state)) = pre @ [m])"
proof -
  have res: "fastFindById roots i = (case find (has_id i) (walk roots) of None \<Rightarrow> [] | Some m \<Rightarrow> [m])"
    unfolding fastFindById_def fastFindById_scan
    by (simp add: scan_def init_state_def push_result_def split: option.splits)
  have flag: "fst (id_search i roots init_state) = (fastFindById roots i \<noteq> [])"
    unfolding res fastFindById_scan by (simp add: scan_def split: option.splits)
  have vis: "visited (snd (id_search i roots init_state)) =
    takeWhile (\<lambda>n. \<not> has_id i n) (walk roots) @ fastFindById roots i"
    unfolding res fastFindById_scan
    by (simp add: scan_def init_state_def push_result_def find_None_takeWhile_all
        split: option.splits)
  have first: "fastFindById roots i = [m] \<and> visited (snd (id_search i roots init_state)) = pre @ [m]"
    if "walk roots = pre @ m # post" "has_id i m" "\<forall>n\<in>set pre. \<not> has_id i n" for pre m post
    unfolding vis unfolding res using that
    by (simp add: find_first takeWhile_first)
  from res have "length (fastFindById roots i) \<le> 1"
    by (simp split: option.splits)
  with res flag vis first show ?thesis
    by blast
qed

text \<open>
  Two paragraphs with the id \<open>x\<close>, the first inside a \<open>div\<close>: the first one is
  returned, and only the \<open>div\<close> and that paragraph have been tested.
\<close>

lemma walk_example_ids:
  "walk example_ids =
     [element 1 ''div'' []
        [element 2 ''p'' [(''id'', ''x'')] [element 3 ''b'' [] []], text_node 8]]
     @ element 2 ''p'' [(''id'', ''x'')] [element 3 ''b'' [] []]
     # [element 3 ''b'' [] [], element 4 ''p'' [(''id'', ''x'')] []]"
  by (simp add: example_ids_def element_def text_node_def)

lemma has_id_examples:
  "has_id (str ''x'') (element 2 ''p'' [(''id'', ''x'')] [element 3 ''b'' [] []])"
  "\<not> has_id (str ''x'') (element 1 ''div'' []
        [element 2 ''p'' [(''id'', ''x'')] [element 3 ''b'' [] []], text_node 8])"
  by (simp_all add: has_id_def attr_def element_def str_def)

theorem fastFindById_first_match_witness:
  "fastFindById example_ids (str ''x'') =
     [element 2 ''p'' [(''id'', ''x'')] [element 3 ''b'' [] []]] \<and>
   visited (snd (id_search (str ''x'') example_ids init_state)) =
     [element 1 ''div'' []
        [element 2 ''p'' [(''id'', ''x'')] [element 3 ''b'' [] []], text_node 8],
      element 2 ''p'' [(''id'', ''x'')] [element 3 ''b'' [] []]]"
  using fastFindById_first_match [of example_ids "str ''x''"] walk_example_ids has_id_examples
  by simp

section \<open>Properties of the pool\<close>

lemma length_less_mono: "length_less n m \<Longrightarrow> k \<le> n \<Longrightarrow> length_less k m"
  by (cases m) auto

lemma maxSize_run_op: "maxSize (run_op p x) = maxSize p"
  by (cases x) (auto simp: acquire_def release_def clear_def call_factory_def pop_def Let_def
      split: prod.splits)

lemma length_pop: "length (snd (pop xs)) \<le> length xs"
  by (simp add: pop_def)

lemma set_pop: "set (snd (pop xs)) \<subseteq> set xs"
  by (auto simp: pop_def dest: in_set_butlastD)

lemma pool_acquire: "pool (snd (acquire p)) = snd (pop (pool p))"
  by (simp add: acquire_def call_factory_def Let_def split: prod.splits)

text \<open>
  The bound that \<open>release\<close> keeps: the last instance retained was pushed onto a pool
  whose length was below \<open>maxSize\<close>.
\<close>

lemma bound_run_op:
  assumes "pool p = [] \<or> length_less (length (pool p) - 1) (maxSize p)"
  shows "pool (run_op p x) = [] \<or>
    length_less (length (pool (run_op p x)) - 1) (maxSize (run_op p x))"
proof (cases x)
  case Acquire
  have "length (snd (pop (pool p))) - 1 \<le> length (pool p) - 1"
    using length_pop [of "pool p"] by simp
  moreover have "snd (pop (pool p)) \<noteq> [] \<Longrightarrow> pool p \<noteq> []"
    by (auto simp: pop_def)
  ultimately show ?thesis
    using assms unfolding maxSize_run_op
    by (auto simp: Acquire pool_acquire intro: length_less_mono)
next
  case (Release obj)
  with assms show ?thesis by (auto simp: release_def)
next
  case Clear
  then show ?thesis by (simp add: clear_def)
qed

lemma released_run_op:
  "set (pool (run_op p x)) \<subseteq> set (pool p) \<union> {obj. x = Release obj}"
proof (cases x)
  case Acquire
  with set_pop [of "pool p"] show ?thesis by (simp add: pool_acquire)
qed (auto simp: release_def clear_def)

lemma run_ops_snoc: "run_ops p (ops @ [x]) = run_op (run_ops p ops) x"
  by (simp add: run_ops_def)

lemma pool_invariant:
  "(pool (run_ops (createWrapperPool f m) ops) = [] \<or>
    length_less (length (pool (run_ops (createWrapperPool f m) ops)) - 1)
      (maxSize (run_ops (createWrapperPool f m) ops))) \<and>
   maxSize (run_ops (createWrapperPool f m) ops)
     = (case m of None \<Rightarrow> Finite 50 | Some k \<Rightarrow> k) \<and>
   set (pool (run_ops (createWrapperPool f m) ops)) \<subseteq> {obj. Release obj \<in> set ops}"
proof (induction ops rule: rev_induct)
  case Nil
  show ?case by (simp add: run_ops_def createWrapperPool_def new_WrapperPool_def)
next
  case (snoc x ops)
  let ?p = "run_ops (createWrapperPool f m) ops"
  from snoc have "pool ?p = [] \<or> length_less (length (pool ?p) - 1) (maxSize ?p)"
    by blast
  then have "pool (run_op ?p x) = [] \<or>
    length_less (length (pool (run_op ?p x)) - 1) (maxSize (run_op ?p x))"
    by (rule bound_run_op)
  moreover from snoc
  have "maxSize (run_op ?p x) = (case m of None \<Rightarrow> Finite 50 | Some k \<Rightarrow> k)"
    by (simp add: maxSize_run_op)
  moreover from snoc released_run_op [of ?p x]
  have "set (pool (run_op ?p x)) \<subseteq> {obj. Release obj \<in> set (ops @ [x])}"
    by auto
  ultimately show ?case by (simp add: run_ops_snoc)
qed

text \<open>
  With a capacity that is a whole number \<open>k\<close>, the pool never holds more than \<open>k\<close>
  instances, whatever the operations are. With the capacity 1.5 it holds two after
  two releases: the bound is the capacity rounded up.
\<close>

lemma pool_whole_capacity:
  "length (pool (run_ops (createWrapperPool f (Some (Finite (real k)))) ops)) \<le> k"
  using pool_invariant [of f "Some (Finite (real k))" ops]
  by (cases "pool (run_ops (createWrapperPool f (Some (Finite (real k)))) ops) = []") auto

lemma pool_default_capacity:
  "length (pool (run_ops (createWrapperPool f None) ops)) \<le> 50"
  using pool_invariant [of f None ops]
  by (cases "pool (run_ops (createWrapperPool f None) ops) = []") auto

lemma pool_fractional_capacity:
  "pool (run_ops (createWrapperPool fresh_object (Some (Finite (3 / 2))))
     [Release (Object 7), Release (Object 8), Release (Object 9)]) = [Object 7, Object 8]"
  by (simp add: run_ops_def createWrapperPool_def new_WrapperPool_def release_def)

text \<open>
  What the operations do on any pool: \<open>release\<close> retains the instance when the length
  is below \<open>maxSize\<close> and does nothing otherwise. \<open>acquire\<close> on a pool that is not
  empty and whose top instance is truthy returns that instance and does not call the
  factory; on the empty pool it returns what the factory makes. Every instance of a
  pool made by \<open>createWrapperPool\<close> was released before.
\<close>

lemma pool_operations:
  "set (pool (run_ops (createWrapperPool f m) ops)) \<subseteq> {obj. Release obj \<in> set ops} \<and>
   (length_less (length (pool p)) (maxSize p) \<longrightarrow>
      release p obj = p\<lparr>pool := pool p @ [obj]\<rparr>) \<and>
   (\<not> length_less (length (pool p)) (maxSize p) \<longrightarrow> release p obj = p) \<and>
   (pool p \<noteq> [] \<and> truthy (last (pool p)) \<longrightarrow>
      acquire p = (last (pool p), p\<lparr>pool := butlast (pool p)\<rparr>)) \<and>
   (pool p = [] \<longrightarrow> acquire p = (factory p (made p), p\<lparr>made := Suc (made p)\<rparr>))"
  using pool_invariant [of f m ops]
  by (simp add: release_def acquire_def pop_def call_factory_def)

text \<open>
  A pool of capacity 2: the third release in a row is dropped, the next \<open>acquire\<close>
  returns the instance released last without a call of the factory, and the empty
  pool calls it.
\<close>

lemma pool_operations_example:
  "pool example_pool = [Object 7, Object 8] \<and>
   release example_pool (Object 9) = example_pool \<and>
   acquire example_pool = (Object 8, example_pool\<lparr>pool := [Object 7]\<rparr>) \<and>
   acquire (createWrapperPool fresh_object (Some (Finite 2))) =
     (Object 100, (createWrapperPool fresh_object (Some (Finite 2)))\<lparr>made := 1\<rparr>) \<and>
   release (createWrapperPool fresh_object (Some (Finite 2))) (Object 7) =
     (createWrapperPool fresh_object (Some (Finite 2)))\<lparr>pool := [Object 7]\<rparr>"
proof -
  have full: "example_pool =
    \<lparr>pool = [Object 7, Object 8], maxSize = Finite 2, factory = fresh_object, made = 0\<rparr>"
    by (simp add: example_pool_def run_ops_def createWrapperPool_def new_WrapperPool_def
        release_def)
  have new: "createWrapperPool fresh_object (Some (Finite 2)) =
    \<lparr>pool = [], maxSize = Finite 2, factory = fresh_object, made = 0\<rparr>"
    by (simp add: createWrapperPool_def new_WrapperPool_def)
  from pool_operations [of fresh_object "Some (Finite 2)" "[]" example_pool "Object 9"]
    pool_operations [of fresh_object "Some (Finite 2)" "[]"
      "createWrapperPool fresh_object (Some (Finite 2))" "Object 7"]
  show ?thesis
    unfolding full new by (simp add: fresh_object_def)
qed

text \<open>
  Claim C3: \<open>acquire\<close> returns a pooled instance without a call of the factory
  whenever the pool is not empty. The code decides on the truthiness of what it pops,
  not on the pool being empty. In a pool of numbers of capacity 2, the released 0 is
  retained and counts as pooled; \<open>acquire\<close> then pops the 0, calls the factory, whose
  count goes from 0 to 1, and returns the factory's 1: the pool was not empty, the
  pooled instance is lost, and a new one is made.
\<close>

theorem acquire_falsy_instance:
  "pool (release (createWrapperPool one_factory (Some (Finite 2))) (Number (Finite 0)))
     = [Number (Finite 0)] \<and>
   made (release (createWrapperPool one_factory (Some (Finite 2))) (Number (Finite 0))) = 0 \<and>
   fst (acquire (release (createWrapperPool one_factory (Some (Finite 2))) (Number (Finite 0))))
     = Number (Finite 1) \<and>
   made (snd (acquire
     (release (createWrapperPool one_factory (Some (Finite 2))) (Number (Finite 0))))) = 1 \<and>
   pool (snd (acquire
     (release (createWrapperPool one_factory (Some (Finite 2))) (Number (Finite 0))))) = []"
  by (simp add: createWrapperPool_def new_WrapperPool_def release_def acquire_def pop_def
      call_factory_def one_factory_def)

end
